theory Spec2Isabelle
  imports Complex_Main "HOL-Library.Char_ord" "HOL-Library.List_Lexorder"
begin

section \<open>The frame extractor (extract\_frames.py)\<close>

subsection \<open>Configuration\<close>

definition VIDEO_FOLDER :: string where
  "VIDEO_FOLDER = ''Videos''"

definition OUTPUT_FOLDER :: string where
  "OUTPUT_FOLDER = ''trainingdata''"

definition FRAME_INTERVAL :: nat where
  "FRAME_INTERVAL = 5"

definition IMAGE_SIZE :: nat where
  "IMAGE_SIZE = 224"

definition VIDEO_EXTENSIONS :: "string list" where
  "VIDEO_EXTENSIONS = [''.mp4'', ''.avi'', ''.mov'', ''.mkv'', ''.MP4'', ''.AVI'', ''.MOV'']"

subsection \<open>Strings: the format \<open>:04d\<close>, path joining, glob suffixes\<close>

text \<open>
  \<open>str(n)\<close> for a non-negative integer: its decimal digits, most significant first.
\<close>

definition digit_char :: "nat \<Rightarrow> char" where
  "digit_char d = ''0123456789'' ! d"

fun str_nat :: "nat \<Rightarrow> string" where
  "str_nat n = (if n < 10 then [digit_char n] else str_nat (n div 10) @ [digit_char (n mod 10)])"

declare str_nat.simps [simp del]

text \<open>
  The format specification \<open>:04d\<close>: decimal, padded with zeros on the left to a width of
  at least four; a number of five digits or more is not truncated.
\<close>

definition fmt_04d :: "nat \<Rightarrow> string" where
  "fmt_04d n = replicate (4 - length (str_nat n)) (CHR ''0'') @ str_nat n"

text \<open>
  \<open>os.path.join\<close> of two components on a POSIX system: an absolute second component
  replaces the first; otherwise one separator stands between them unless the first is empty
  or already ends with one.
\<close>

definition os_path_join :: "string \<Rightarrow> string \<Rightarrow> string" where
  "os_path_join a b =
     (if b \<noteq> [] \<and> hd b = CHR ''/'' then b
      else if a = [] \<or> last a = CHR ''/'' then a @ b
      else a @ ''/'' @ b)"

text \<open>
  The directory part and the final component of a path (split at the last separator), as
  \<open>Path.parent\<close> and \<open>Path.name\<close> give them for the paths of this program.
\<close>

definition dirname :: "string \<Rightarrow> string" where
  "dirname p = rev (tl (dropWhile (\<lambda>c. c \<noteq> CHR ''/'') (rev p)))"

definition basename :: "string \<Rightarrow> string" where
  "basename p = rev (takeWhile (\<lambda>c. c \<noteq> CHR ''/'') (rev p))"

text \<open>
  A glob pattern \<open>*suf\<close> whose \<open>suf\<close> has no wildcard matches the names that end with
  \<open>suf\<close> (pathlib's \<open>*\<close> also matches the empty string and a leading dot; matching is
  case-sensitive, as on POSIX).
\<close>

definition endswith :: "string \<Rightarrow> string \<Rightarrow> bool" where
  "endswith s suf = (length suf \<le> length s \<and> drop (length s - length suf) s = suf)"

subsection \<open>The world the script runs in\<close>

text \<open>
  A file inside a letter folder: its name, and what \<open>cv2.VideoCapture\<close> does with it.
  \<open>None\<close>: \<open>cap.isOpened()\<close> is false. \<open>Some fs\<close>: the capture opens and
  \<open>cap.read()\<close> returns the frames \<open>fs\<close> in order, then \<open>ret = False\<close>.
\<close>

record 'f video_file =
  vname :: string
  decoded :: "'f list option"

text \<open>An entry of the directory \<open>Videos\<close>, with its listing when it is a directory.\<close>

record 'f dir_entry =
  ename :: string
  is_dir :: bool
  listing :: "'f video_file list"

datatype 'f videos_node = Absent | NotADirectory | Directory "'f dir_entry list"

text \<open>
  The file system the script writes to, by path: the directories, and the files with their
  contents. Only the output tree matters here.
\<close>

record 'f filesys =
  dirs :: "string list"
  files :: "(string \<times> 'f) list"

datatype 'f event =
    MakeDirs string
  | VideoCapture string
  | Imwrite string 'f
  | Release

text \<open>The \<open>cv2.imwrite\<close> calls of a trace, in order: the path and the image of each.\<close>

fun written :: "'f event list \<Rightarrow> (string \<times> 'f) list" where
  "written [] = []"
| "written (Imwrite p x # es) = (p, x) # written es"
| "written (MakeDirs p # es) = written es"
| "written (VideoCapture p # es) = written es"
| "written (Release # es) = written es"

text \<open>The paths \<open>cv2.VideoCapture\<close> was called on, in order.\<close>

fun captured :: "'f event list \<Rightarrow> string list" where
  "captured [] = []"
| "captured (VideoCapture p # es) = p # captured es"
| "captured (MakeDirs p # es) = captured es"
| "captured (Imwrite p x # es) = captured es"
| "captured (Release # es) = captured es"

record 'f world =
  fsys :: "'f filesys"
  trace :: "'f event list"

datatype status = Completed | Exited nat | Raised string

text \<open>The exit status of the process: an uncaught exception ends Python with status 1.\<close>

fun exit_status :: "status \<Rightarrow> nat" where
  "exit_status Completed = 0"
| "exit_status (Exited n) = n"
| "exit_status (Raised e) = 1"

definition log_event :: "'f event \<Rightarrow> 'f world \<Rightarrow> 'f world" where
  "log_event e w = w\<lparr>trace := trace w @ [e]\<rparr>"

text \<open>
  \<open>os.makedirs(p, exist_ok=True)\<close>: nothing to do when the directory exists,
  \<open>FileExistsError\<close> when the path is a file, and the directory is made otherwise (the
  only parent this program needs is \<open>OUTPUT_FOLDER\<close>, made first).
\<close>

definition makedirs :: "string \<Rightarrow> 'f world \<Rightarrow> string option \<times> 'f world" where
  "makedirs p w =
     (let w' = log_event (MakeDirs p) w in
      if p \<in> set (dirs (fsys w')) then (None, w')
      else if p \<in> set (map fst (files (fsys w'))) then (Some ''FileExistsError'', w')
      else (None, w'\<lparr>fsys := (fsys w')\<lparr>dirs := dirs (fsys w') @ [p]\<rparr>\<rparr>))"

text \<open>Writing a file replaces the content at an existing path and adds the path otherwise.\<close>

fun write_file :: "string \<Rightarrow> 'f \<Rightarrow> (string \<times> 'f) list \<Rightarrow> (string \<times> 'f) list" where
  "write_file p x [] = [(p, x)]"
| "write_file p x ((q, y) # fs) = (if q = p then (p, x) # fs else (q, y) # write_file p x fs)"

definition imwrite :: "string \<Rightarrow> 'f \<Rightarrow> 'f world \<Rightarrow> 'f world" where
  "imwrite p img w =
     (log_event (Imwrite p img) w)\<lparr>fsys := (fsys w)\<lparr>files := write_file p img (files (fsys w))\<rparr>\<rparr>"

text \<open>
  \<open>len(list(Path(d).glob("*.jpg")))\<close>: the entries directly inside \<open>d\<close> (files and
  directories alike) whose name ends with \<open>.jpg\<close>.
\<close>

definition glob_count :: "string \<Rightarrow> string \<Rightarrow> 'f filesys \<Rightarrow> nat" where
  "glob_count d suf s =
     length (filter (\<lambda>p. CHR ''/'' \<in> set p \<and> dirname p = d \<and> endswith (basename p) suf)
       (dirs s @ map fst (files s)))"

subsection \<open>The sampling loop over one video\<close>

text \<open>
  The \<open>while True\<close> loop, lines 97 to 116, over the frames the capture still has to
  return. The loop state is \<open>(frame_count, saved_count)\<close> and the world;
  \<open>rs\<close> stands for \<open>cv2.resize\<close>.
\<close>

fun frame_loop ::
  "('f \<Rightarrow> nat \<times> nat \<Rightarrow> 'f) \<Rightarrow> string \<Rightarrow> nat \<Rightarrow> nat \<Rightarrow> 'f list \<Rightarrow>
   nat \<times> nat \<times> 'f world \<Rightarrow> nat \<times> nat \<times> 'f world" where
  "frame_loop rs output_dir existing_count frames_for_letter [] s = s"
| "frame_loop rs output_dir existing_count frames_for_letter (frame # rest)
     (frame_count, saved_count, w) =
     (if frame_count mod FRAME_INTERVAL = 0 then
        let resized = rs frame (IMAGE_SIZE, IMAGE_SIZE);
            img_filename =
              ''img_'' @ fmt_04d (existing_count + frames_for_letter + saved_count + 1) @ ''.jpg'';
            img_path = os_path_join output_dir img_filename
        in frame_loop rs output_dir existing_count frames_for_letter rest
             (frame_count + 1, saved_count + 1, imwrite img_path resized w)
      else frame_loop rs output_dir existing_count frames_for_letter rest
             (frame_count + 1, saved_count, w))"

text \<open>
  The body of the loop over \<open>video_files\<close>, lines 85 to 122, for one file of the letter
  folder at \<open>folder_path\<close>. The state is \<open>(frames_for_letter, total_videos)\<close> and the
  world.
\<close>

definition process_video ::
  "('f \<Rightarrow> nat \<times> nat \<Rightarrow> 'f) \<Rightarrow> string \<Rightarrow> string \<Rightarrow> nat \<Rightarrow> 'f video_file \<Rightarrow>
   nat \<times> nat \<times> 'f world \<Rightarrow> nat \<times> nat \<times> 'f world" where
  "process_video rs folder_path output_dir existing_count v s =
     (case s of (frames_for_letter, total_videos, w) \<Rightarrow>
        let w1 = log_event (VideoCapture (os_path_join folder_path (vname v))) w in
        (case decoded v of
           None \<Rightarrow> (frames_for_letter, total_videos, w1)
         | Some frames \<Rightarrow>
             (case frame_loop rs output_dir existing_count frames_for_letter frames (0, 0, w1) of
                (frame_count, saved_count, w2) \<Rightarrow>
                  (frames_for_letter + saved_count, total_videos + 1, log_event Release w2))))"

subsection \<open>The loop over the letter folders and the script\<close>

text \<open>
  Lines 65 to 67: for each extension in turn, the entries of the folder that the pattern
  \<open>*ext\<close> matches, in directory order.
\<close>

definition video_files_of :: "'f dir_entry \<Rightarrow> 'f video_file list" where
  "video_files_of letter_folder =
     concat (map (\<lambda>ext. filter (\<lambda>v. endswith (vname v) ext) (listing letter_folder))
       VIDEO_EXTENSIONS)"

text \<open>
  The body of the loop over the letter folders, lines 62 to 127. The state is
  \<open>(total_frames, total_videos)\<close> and the world; \<open>Some e\<close> in front of it is
  an exception that leaves the script.
\<close>

definition process_letter_folder ::
  "('f \<Rightarrow> nat \<times> nat \<Rightarrow> 'f) \<Rightarrow> 'f dir_entry \<Rightarrow> nat \<times> nat \<times> 'f world \<Rightarrow>
   string option \<times> nat \<times> nat \<times> 'f world" where
  "process_letter_folder rs letter_folder s =
     (case s of (total_frames, total_videos, w) \<Rightarrow>
        let sign_name = ename letter_folder;
            video_files = video_files_of letter_folder
        in if length video_files = 0 then (None, s)
           else
             let output_dir = os_path_join OUTPUT_FOLDER sign_name in
             (case makedirs output_dir w of
                (Some e, w1) \<Rightarrow> (Some e, total_frames, total_videos, w1)
              | (None, w1) \<Rightarrow>
                  let existing_count = glob_count output_dir ''.jpg'' (fsys w1) in
                  (case fold (process_video rs (os_path_join VIDEO_FOLDER sign_name) output_dir
                               existing_count) video_files (0, total_videos, w1) of
                     (frames_for_letter, total_videos', w2) \<Rightarrow>
                       (None, total_frames + frames_for_letter, total_videos', w2))))"

fun letter_loop ::
  "('f \<Rightarrow> nat \<times> nat \<Rightarrow> 'f) \<Rightarrow> 'f dir_entry list \<Rightarrow> nat \<times> nat \<times> 'f world \<Rightarrow>
   status \<times> nat \<times> nat \<times> 'f world" where
  "letter_loop rs [] s = (Completed, s)"
| "letter_loop rs (letter_folder # rest) s =
     (case process_letter_folder rs letter_folder s of
        (Some e, s') \<Rightarrow> (Raised e, s')
      | (None, s') \<Rightarrow> letter_loop rs rest s')"

text \<open>
  The script: the state of \<open>Videos\<close> and the file system it starts in give the way it
  ends, the counters \<open>total_frames\<close> and \<open>total_videos\<close> (zero where the script
  ends before it sets them) and the world it leaves. \<open>sorted\<close> orders the folders by
  name; \<open>print\<close> is left out.
\<close>

definition extract_frames ::
  "('f \<Rightarrow> nat \<times> nat \<Rightarrow> 'f) \<Rightarrow> 'f videos_node \<Rightarrow> 'f filesys \<Rightarrow>
   status \<times> nat \<times> nat \<times> 'f world" where
  "extract_frames rs videos fs0 =
     (let w0 = \<lparr>fsys = fs0, trace = []\<rparr> in
      case videos of
        Absent \<Rightarrow> (Exited 1, 0, 0, w0)
      | NotADirectory \<Rightarrow>
          (case makedirs OUTPUT_FOLDER w0 of
             (Some e, w1) \<Rightarrow> (Raised e, 0, 0, w1)
           | (None, w1) \<Rightarrow> (Raised ''NotADirectoryError'', 0, 0, w1))
      | Directory entries \<Rightarrow>
          (case makedirs OUTPUT_FOLDER w0 of
             (Some e, w1) \<Rightarrow> (Raised e, 0, 0, w1)
           | (None, w1) \<Rightarrow>
               let letter_folders = filter is_dir entries in
               if length letter_folders = 0 then (Exited 1, 0, 0, w1)
               else letter_loop rs (sort_key ename letter_folders) (0, 0, w1)))"

subsection \<open>Closed forms used to state what the loops do\<close>

text \<open>The path of the image numbered \<open>n\<close> in \<open>output_dir\<close>, lines 109 and 110.\<close>

definition img_path :: "string \<Rightarrow> nat \<Rightarrow> string" where
  "img_path output_dir n = os_path_join output_dir (''img_'' @ fmt_04d n @ ''.jpg'')"

text \<open>The frames of a decoded sequence at the indices that are multiples of the stride.\<close>

definition sampled :: "'f list \<Rightarrow> 'f list" where
  "sampled frames =
     map (\<lambda>i. frames ! i) (filter (\<lambda>i. i mod FRAME_INTERVAL = 0) [0..<length frames])"

text \<open>The images one file of a letter folder yields: none when the capture does not open.\<close>

definition video_images :: "('f \<Rightarrow> nat \<times> nat \<Rightarrow> 'f) \<Rightarrow> 'f video_file \<Rightarrow> 'f list" where
  "video_images rs v =
     (case decoded v of
        None \<Rightarrow> []
      | Some frames \<Rightarrow> map (\<lambda>x. rs x (IMAGE_SIZE, IMAGE_SIZE)) (sampled frames))"

definition folder_images :: "('f \<Rightarrow> nat \<times> nat \<Rightarrow> 'f) \<Rightarrow> 'f dir_entry \<Rightarrow> 'f list" where
  "folder_images rs letter_folder = concat (map (video_images rs) (video_files_of letter_folder))"

text \<open>Images paired with the paths numbered \<open>base + 1\<close>, \<open>base + 2\<close>, ... in a directory.\<close>

definition numbered :: "string \<Rightarrow> nat \<Rightarrow> 'f list \<Rightarrow> (string \<times> 'f) list" where
  "numbered output_dir base imgs =
     map (\<lambda>(k, x). (img_path output_dir k, x)) (enumerate (base + 1) imgs)"

definition store :: "(string \<times> 'f) list \<Rightarrow> 'f filesys \<Rightarrow> 'f filesys" where
  "store ws s = s\<lparr>files := fold (\<lambda>(p, x). write_file p x) ws (files s)\<rparr>"

text \<open>
  What one letter folder writes, given the file system the script starts in: its images,
  numbered from the count of \<open>*.jpg\<close> entries of its output directory.
\<close>

definition folder_writes ::
  "('f \<Rightarrow> nat \<times> nat \<Rightarrow> 'f) \<Rightarrow> 'f filesys \<Rightarrow> 'f dir_entry \<Rightarrow> (string \<times> 'f) list" where
  "folder_writes rs fs0 letter_folder =
     numbered (os_path_join OUTPUT_FOLDER (ename letter_folder))
       (glob_count (os_path_join OUTPUT_FOLDER (ename letter_folder)) ''.jpg'' fs0)
       (folder_images rs letter_folder)"

text \<open>The paths of the video files of a letter folder, as \<open>str(video_path)\<close>.\<close>

definition folder_captures :: "'f dir_entry \<Rightarrow> string list" where
  "folder_captures letter_folder =
     map (\<lambda>v. os_path_join (os_path_join VIDEO_FOLDER (ename letter_folder)) (vname v))
       (video_files_of letter_folder)"

text \<open>The files among \<open>vs\<close> that \<open>cv2.VideoCapture\<close> opens.\<close>

definition opened :: "'f video_file list \<Rightarrow> 'f video_file list" where
  "opened vs = filter (\<lambda>v. decoded v \<noteq> None) vs"

text \<open>
  The letter folders in the order the script visits them, lines 46 and 61: the directories
  among the entries of \<open>Videos\<close>, sorted by name.
\<close>

definition letter_folders_of :: "'f videos_node \<Rightarrow> 'f dir_entry list" where
  "letter_folders_of videos =
     (case videos of
        Directory entries \<Rightarrow> sort_key ename (filter is_dir entries)
      | _ \<Rightarrow> [])"

text \<open>The names of the entries of \<open>Videos\<close>.\<close>

definition entry_names :: "'f videos_node \<Rightarrow> string list" where
  "entry_names videos = (case videos of Directory entries \<Rightarrow> map ename entries | _ \<Rightarrow> [])"

text \<open>Reading a decimal numeral back, to tell the formatted numbers apart.\<close>

definition digit_val :: "char \<Rightarrow> nat" where
  "digit_val c = of_char c - 48"

definition dec_val :: "string \<Rightarrow> nat" where
  "dec_val s = foldl (\<lambda>a c. 10 * a + digit_val c) 0 s"

text \<open>The file name of the image numbered \<open>n\<close>, line 109.\<close>

definition img_filename :: "nat \<Rightarrow> string" where
  "img_filename n = ''img_'' @ fmt_04d n @ ''.jpg''"

text \<open>A name a directory entry can have: not empty, and without a separator.\<close>

definition valid_name :: "string \<Rightarrow> bool" where
  "valid_name n = (n \<noteq> [] \<and> CHR ''/'' \<notin> set n)"

subsection \<open>Example inputs\<close>

text \<open>
  Frames are numbers here, and resizing adds 1000 to a frame, so that the images written
  show which frames they come from.
\<close>

definition demo_resize :: "nat \<Rightarrow> nat \<times> nat \<Rightarrow> nat" where
  "demo_resize f sz = f + 1000"

definition demo_video :: "nat video_file" where
  "demo_video = \<lparr>vname = ''b.mp4'', decoded = Some [0, 1, 2, 3, 4, 5]\<rparr>"

definition demo_videos :: "nat videos_node" where
  "demo_videos = Directory
     [\<lparr>ename = ''B'', is_dir = True,
        listing = [demo_video, \<lparr>vname = ''c.avi'', decoded = None\<rparr>]\<rparr>,
      \<lparr>ename = ''A'', is_dir = True, listing = [\<lparr>vname = ''a.txt'', decoded = None\<rparr>]\<rparr>,
      \<lparr>ename = ''readme'', is_dir = False, listing = []\<rparr>]"

definition demo_fs :: "nat filesys" where
  "demo_fs = \<lparr>dirs = [''trainingdata'', ''trainingdata/B''],
              files = [(''trainingdata/B/x.jpg'', 5)]\<rparr>"

text \<open>The world the script leaves when it runs on the example.\<close>

definition demo_result :: "nat world" where
  "demo_result =
     \<lparr>fsys = \<lparr>dirs = [''trainingdata'', ''trainingdata/B''],
              files = [(''trainingdata/B/x.jpg'', 5),
                       (''trainingdata/B/img_0002.jpg'', 1000),
                       (''trainingdata/B/img_0003.jpg'', 1005)]\<rparr>,
      trace = [MakeDirs ''trainingdata'', MakeDirs ''trainingdata/B'',
               VideoCapture ''Videos/B/b.mp4'',
               Imwrite ''trainingdata/B/img_0002.jpg'' 1000,
               Imwrite ''trainingdata/B/img_0003.jpg'' 1005, Release,
               VideoCapture ''Videos/B/c.avi'']\<rparr>"

definition demo_world :: "nat world" where
  "demo_world = \<lparr>fsys = demo_fs, trace = []\<rparr>"

text \<open>
  A second example, for the sizes of the images: a frame is its size (width, height), and
  resizing gives the size asked for.
\<close>

definition demo_sized_videos :: "(nat \<times> nat) videos_node" where
  "demo_sized_videos = Directory
     [\<lparr>ename = ''A'', is_dir = True,
        listing = [\<lparr>vname = ''a.mp4'', decoded = Some [(640, 480)]\<rparr>]\<rparr>]"

definition demo_sized_result :: "(nat \<times> nat) world" where
  "demo_sized_result =
     \<lparr>fsys = \<lparr>dirs = [''trainingdata'', ''trainingdata/A''],
              files = [(''trainingdata/A/img_0001.jpg'', (224, 224))]\<rparr>,
      trace = [MakeDirs ''trainingdata'', MakeDirs ''trainingdata/A'',
               VideoCapture ''Videos/A/a.mp4'',
               Imwrite ''trainingdata/A/img_0001.jpg'' (224, 224), Release]\<rparr>"

definition demo_scale :: "nat \<times> nat \<Rightarrow> nat \<times> nat \<Rightarrow> nat \<times> nat" where
  "demo_scale f d = d"

definition demo_size_of :: "nat \<times> nat \<Rightarrow> nat \<times> nat" where
  "demo_size_of f = f"

section \<open>Properties of the frame extractor\<close>

subsection \<open>Traces, strides and the loop over the frames\<close>

lemma written_append: "written (xs @ ys) = written xs @ written ys"
  by (induction xs rule: written.induct) simp_all

lemma captured_append: "captured (xs @ ys) = captured xs @ captured ys"
  by (induction xs rule: captured.induct) simp_all

lemma written_Imwrites: "written (map (\<lambda>(p, x). Imwrite p x) ws) = ws"
  by (induction ws) auto

lemma captured_Imwrites: "captured (map (\<lambda>(p, x). Imwrite p x) ws) = []"
  by (induction ws) auto

lemma stride_Suc:
  "filter (\<lambda>i. (fc + i) mod m = 0) [0..<Suc n] =
     (if fc mod m = 0 then [0] else []) @ map Suc (filter (\<lambda>i. (Suc fc + i) mod m = 0) [0..<n])"
proof -
  have "[0..<Suc n] = 0 # map Suc [0..<n]"
    by (simp add: upt_conv_Cons map_Suc_upt del: upt_Suc)
  then show ?thesis
    by (simp add: filter_map comp_def del: upt_Suc)
qed

lemma ceil_step:
  "(Suc a + 4) div 5 = (if a mod 5 = 0 then Suc ((a + 4) div 5) else (a + 4) div (5::nat))"
proof -
  have l: "(Suc a + 4) div 5 = Suc (a div 5)" by simp
  have r: "(a + 4) div 5 = a div 5 + (a mod 5 + 4) div 5"
    by (simp add: div_add1_eq [of a 4 5])
  have "a mod 5 < 5" by simp
  then have "a mod 5 = 0 \<or> a mod 5 = 1 \<or> a mod 5 = 2 \<or> a mod 5 = 3 \<or> a mod 5 = 4"
    by linarith
  then have "(a mod 5 + 4) div 5 = (if a mod 5 = 0 then 0 else 1)"
    by (elim disjE) simp_all
  with l r show ?thesis by simp
qed

lemma stride_count: "length (filter (\<lambda>i. i mod 5 = 0) [0..<n]) = (n + 4) div 5"
proof (induction n)
  case 0
  show ?case by simp
next
  case (Suc n)
  show ?case
    by (simp only: upt_Suc_append [OF le0] filter_append filter.simps length_append Suc ceil_step
        split: if_splits) simp
qed

lemma ceil_div5: "nat \<lceil>real n / 5\<rceil> = (n + 4) div 5"
proof -
  have "\<lceil>real n / 5\<rceil> = \<lceil>real_of_int (int n) / real_of_int 5\<rceil>" by simp
  also have "\<dots> = - ((- int n) div 5)" by (simp only: ceiling_divide_eq_div)
  also have "\<dots> = int ((n + 4) div 5)" by (simp add: zdiv_int)
  finally show ?thesis by simp
qed

lemma length_sampled: "length (sampled frames) = nat \<lceil>real (length frames) / real FRAME_INTERVAL\<rceil>"
  by (simp add: sampled_def FRAME_INTERVAL_def stride_count ceil_div5)

lemma numbered_Nil: "numbered od base [] = []"
  by (simp add: numbered_def)

lemma numbered_Cons:
  "numbered od base (x # xs) = (img_path od (base + 1), x) # numbered od (base + 1) xs"
  by (simp add: numbered_def)

lemma numbered_append:
  "numbered od base (xs @ ys) = numbered od base xs @ numbered od (base + length xs) ys"
  by (simp add: numbered_def enumerate_append_eq add.commute add.left_commute)

lemma store_Nil: "store [] s = s"
  by (simp add: store_def)

lemma store_Cons: "store ((p, x) # ws) s = store ws (s\<lparr>files := write_file p x (files s)\<rparr>)"
  by (simp add: store_def)

lemma store_append: "store (xs @ ys) s = store ys (store xs s)"
  by (simp add: store_def)

lemma frame_loop_general:
  "frame_loop rs od ec ffl frames (fc, sc, w) =
     (let imgs = map (\<lambda>i. rs (frames ! i) (IMAGE_SIZE, IMAGE_SIZE))
                   (filter (\<lambda>i. (fc + i) mod FRAME_INTERVAL = 0) [0..<length frames]);
          ws = numbered od (ec + ffl + sc) imgs
      in (fc + length frames, sc + length imgs,
          \<lparr>fsys = store ws (fsys w), trace = trace w @ map (\<lambda>(p, x). Imwrite p x) ws\<rparr>))"
proof (induction frames arbitrary: fc sc w)
  case Nil
  show ?case by (simp add: numbered_Nil store_Nil)
next
  case (Cons x xs)
  show ?case
    apply (simp only: frame_loop.simps Cons.IH length_Cons stride_Suc)
    apply (simp add: Let_def numbered_Cons numbered_Nil store_Cons store_Nil img_path_def
        imwrite_def log_event_def comp_def del: upt_Suc)
    done
qed

lemma frame_loop_effect:
  "frame_loop rs od ec ffl frames (0, 0, w) =
     (let ws = numbered od (ec + ffl) (map (\<lambda>x. rs x (IMAGE_SIZE, IMAGE_SIZE)) (sampled frames))
      in (length frames, length (sampled frames),
          \<lparr>fsys = store ws (fsys w), trace = trace w @ map (\<lambda>(p, x). Imwrite p x) ws\<rparr>))"
  by (simp add: frame_loop_general sampled_def Let_def comp_def del: upt_Suc)

lemma process_video_effect:
  "process_video rs fp od ec v (ffl, tv, w) =
     (ffl + length (video_images rs v),
      tv + (if decoded v = None then 0 else 1),
      \<lparr>fsys = store (numbered od (ec + ffl) (video_images rs v)) (fsys w),
       trace = trace w @ [VideoCapture (os_path_join fp (vname v))]
                 @ map (\<lambda>(p, x). Imwrite p x) (numbered od (ec + ffl) (video_images rs v))
                 @ (if decoded v = None then [] else [Release])\<rparr>)"
  by (cases "decoded v")
    (simp_all add: process_video_def video_images_def frame_loop_effect log_event_def Let_def
      numbered_Nil store_Nil)

lemma map_snd_numbered: "map snd (numbered od base imgs) = imgs"
  by (simp add: numbered_def comp_def split_def)

lemma length_numbered: "length (numbered od base imgs) = length imgs"
  by (simp add: numbered_def)

lemma map_fst_numbered:
  "map fst (numbered od base imgs) = map (img_path od) [Suc base..<Suc base + length imgs]"
proof -
  have "map fst (numbered od base imgs) = map (img_path od) (map fst (enumerate (Suc base) imgs))"
    by (simp add: numbered_def comp_def split_def del: map_fst_enumerate)
  then show ?thesis
    by (simp only: map_fst_enumerate)
qed

subsection \<open>Fixed-stride sampling\<close>

text \<open>
  Claim C1. A video that opens and decodes the frames \<open>frames\<close> adds to the images
  written exactly the resized frames whose 0-based index is a multiple of
  \<open>FRAME_INTERVAL\<close>, which is 5, in decode order; their number, which is added to
  \<open>frames_for_letter\<close>, is the ceiling of \<open>length frames / 5\<close>, and the video is
  counted once.
\<close>

theorem fixed_stride_sampling:
  assumes "decoded v = Some frames"
  shows "(case process_video rs fp od ec v (ffl, tv, w) of
            (ffl', tv', w') \<Rightarrow>
              map snd (written (trace w')) =
                map snd (written (trace w)) @
                map (\<lambda>i. rs (frames ! i) (IMAGE_SIZE, IMAGE_SIZE))
                  (filter (\<lambda>i. i mod FRAME_INTERVAL = 0) [0..<length frames]) \<and>
              ffl' = ffl + nat \<lceil>real (length frames) / real FRAME_INTERVAL\<rceil> \<and>
              tv' = tv + 1) \<and>
         FRAME_INTERVAL = 5"
proof -
  have imgs: "video_images rs v =
      map (\<lambda>i. rs (frames ! i) (IMAGE_SIZE, IMAGE_SIZE))
        (filter (\<lambda>i. i mod FRAME_INTERVAL = 0) [0..<length frames])"
    using assms by (simp add: video_images_def sampled_def comp_def)
  have len: "length (video_images rs v) = nat \<lceil>real (length frames) / real FRAME_INTERVAL\<rceil>"
    using assms by (simp add: video_images_def length_sampled)
  have "map snd (written (trace w @ [VideoCapture (os_path_join fp (vname v))]
          @ map (\<lambda>(p, x). Imwrite p x) (numbered od (ec + ffl) (video_images rs v)) @ [Release]))
        = map snd (written (trace w)) @ video_images rs v"
    by (simp add: written_append written_Imwrites map_snd_numbered)
  moreover have "FRAME_INTERVAL = 5"
    by (simp add: FRAME_INTERVAL_def)
  ultimately show ?thesis
    using assms len by (simp add: process_video_effect imgs [symmetric])
qed

theorem fixed_stride_sampling_witness:
  "decoded demo_video = Some [0, 1, 2, 3, 4, 5] \<and>
   (case process_video demo_resize ''Videos/B'' ''trainingdata/B'' 1 demo_video (0, 0, demo_world) of
      (ffl', tv', w') \<Rightarrow>
        map snd (written (trace w')) = [1000, 1005] \<and> ffl' = 2 \<and> tv' = 1)"
proof -
  have h: "decoded demo_video = Some [0, 1, 2, 3, 4, 5]"
    by (simp add: demo_video_def)
  have c: "nat \<lceil>real (length [0::nat, 1, 2, 3, 4, 5]) / real FRAME_INTERVAL\<rceil> = 2"
    by (simp add: FRAME_INTERVAL_def ceil_div5)
  have t: "trace demo_world = []"
    by (simp add: demo_world_def)
  have f: "filter (\<lambda>i. i mod FRAME_INTERVAL = 0) [0..<length [0::nat, 1, 2, 3, 4, 5]] = [0, 5]"
    by (simp add: FRAME_INTERVAL_def upt_rec)
  show ?thesis
    using fixed_stride_sampling [OF h, where rs = demo_resize and fp = "''Videos/B''"
        and od = "''trainingdata/B''" and ec = 1 and ffl = 0 and tv = 0 and w = demo_world]
    unfolding c f by (simp add: h t demo_resize_def split: prod.splits)
qed

subsection \<open>The loop over the videos of a folder\<close>

lemma fold_videos_effect:
  "\<exists>tr. fold (process_video rs fp od ec) vs (ffl, tv, w) =
      (ffl + length (concat (map (video_images rs) vs)),
       tv + length (filter (\<lambda>v. decoded v \<noteq> None) vs),
       \<lparr>fsys = store (numbered od (ec + ffl) (concat (map (video_images rs) vs))) (fsys w),
        trace = trace w @ tr\<rparr>) \<and>
     written tr = numbered od (ec + ffl) (concat (map (video_images rs) vs)) \<and>
     captured tr = map (\<lambda>v. os_path_join fp (vname v)) vs"
proof (induction vs arbitrary: ffl tv w)
  case Nil
  have "fold (process_video rs fp od ec) [] (ffl, tv, w) =
      (ffl + length (concat (map (video_images rs) [])),
       tv + length (filter (\<lambda>v. decoded v \<noteq> None) []),
       \<lparr>fsys = store (numbered od (ec + ffl) (concat (map (video_images rs) []))) (fsys w),
        trace = trace w @ []\<rparr>)"
    by (simp add: numbered_Nil store_Nil)
  then show ?case
    by (intro exI [of _ "[]"] conjI) (simp_all add: numbered_Nil)
next
  case (Cons v vs)
  let ?n = "length (video_images rs v)"
  let ?b = "if decoded v = None then 0 else (1::nat)"
  let ?ws = "numbered od (ec + ffl) (video_images rs v)"
  let ?tr1 = "[VideoCapture (os_path_join fp (vname v))] @ map (\<lambda>(p, x). Imwrite p x) ?ws
               @ (if decoded v = None then [] else [Release])"
  let ?w1 = "\<lparr>fsys = store ?ws (fsys w), trace = trace w @ ?tr1\<rparr>"
  have step: "process_video rs fp od ec v (ffl, tv, w) = (ffl + ?n, tv + ?b, ?w1)"
    by (simp only: process_video_effect)
  obtain tr2 where
    f: "fold (process_video rs fp od ec) vs (ffl + ?n, tv + ?b, ?w1) =
      (ffl + ?n + length (concat (map (video_images rs) vs)),
       tv + ?b + length (filter (\<lambda>v. decoded v \<noteq> None) vs),
       \<lparr>fsys = store (numbered od (ec + (ffl + ?n)) (concat (map (video_images rs) vs))) (fsys ?w1),
        trace = trace ?w1 @ tr2\<rparr>)"
    and w2: "written tr2 = numbered od (ec + (ffl + ?n)) (concat (map (video_images rs) vs))"
    and c2: "captured tr2 = map (\<lambda>v. os_path_join fp (vname v)) vs"
    using Cons.IH [of "ffl + ?n" "tv + ?b" ?w1] by blast
  have w1: "written ?tr1 = ?ws"
    by (simp add: written_append written_Imwrites)
  have c1: "captured ?tr1 = [os_path_join fp (vname v)]"
    by (simp add: captured_append captured_Imwrites)
  have "fold (process_video rs fp od ec) (v # vs) (ffl, tv, w) =
      fold (process_video rs fp od ec) vs (ffl + ?n, tv + ?b, ?w1)"
    by (simp only: fold_Cons o_apply step)
  also note f
  also have "(ffl + ?n + length (concat (map (video_images rs) vs)),
       tv + ?b + length (filter (\<lambda>v. decoded v \<noteq> None) vs),
       \<lparr>fsys = store (numbered od (ec + (ffl + ?n)) (concat (map (video_images rs) vs))) (fsys ?w1),
        trace = trace ?w1 @ tr2\<rparr>) =
      (ffl + length (concat (map (video_images rs) (v # vs))),
       tv + length (filter (\<lambda>v. decoded v \<noteq> None) (v # vs)),
       \<lparr>fsys = store (numbered od (ec + ffl) (concat (map (video_images rs) (v # vs)))) (fsys w),
        trace = trace w @ (?tr1 @ tr2)\<rparr>)"
    by (simp add: numbered_append store_append add.assoc)
  finally have "fold (process_video rs fp od ec) (v # vs) (ffl, tv, w) =
      (ffl + length (concat (map (video_images rs) (v # vs))),
       tv + length (filter (\<lambda>v. decoded v \<noteq> None) (v # vs)),
       \<lparr>fsys = store (numbered od (ec + ffl) (concat (map (video_images rs) (v # vs)))) (fsys w),
        trace = trace w @ (?tr1 @ tr2)\<rparr>)" .
  moreover have "written (?tr1 @ tr2) =
      numbered od (ec + ffl) (concat (map (video_images rs) (v # vs)))"
  proof -
    have "written (?tr1 @ tr2) = written ?tr1 @ written tr2"
      by (rule written_append)
    also have "\<dots> = ?ws @ numbered od (ec + (ffl + ?n)) (concat (map (video_images rs) vs))"
      by (simp only: w1 w2)
    also have "\<dots> = numbered od (ec + ffl) (concat (map (video_images rs) (v # vs)))"
      by (simp add: numbered_append add.assoc)
    finally show ?thesis .
  qed
  moreover have "captured (?tr1 @ tr2) = map (\<lambda>v. os_path_join fp (vname v)) (v # vs)"
  proof -
    have "captured (?tr1 @ tr2) = captured ?tr1 @ captured tr2"
      by (rule captured_append)
    also have "\<dots> = [os_path_join fp (vname v)] @ map (\<lambda>v. os_path_join fp (vname v)) vs"
      by (simp only: c1 c2)
    finally show ?thesis by simp
  qed
  ultimately show ?case
    by (intro exI [of _ "?tr1 @ tr2"] conjI)
qed

subsection \<open>File names and paths\<close>

lemma below_ten:
  assumes "d < (10::nat)"
  shows "d = 0 \<or> d = 1 \<or> d = 2 \<or> d = 3 \<or> d = 4 \<or> d = 5 \<or> d = 6 \<or> d = 7 \<or> d = 8 \<or> d = 9"
  using assms by arith

lemma digit_char_no_slash: "d < 10 \<Longrightarrow> digit_char d \<noteq> CHR ''/''"
  by (drule below_ten) (auto simp: digit_char_def)

lemma digit_val_digit_char: "d < 10 \<Longrightarrow> digit_val (digit_char d) = d"
  by (drule below_ten) (auto simp: digit_char_def digit_val_def)

lemma str_nat_no_slash: "CHR ''/'' \<notin> set (str_nat n)"
proof (induction n rule: str_nat.induct)
  case (1 n)
  show ?case
  proof (cases "n < 10")
    case True
    then show ?thesis
      using digit_char_no_slash [of n] by (subst str_nat.simps) auto
  next
    case False
    have "n mod 10 < 10" by simp
    then have "digit_char (n mod 10) \<noteq> CHR ''/''" by (rule digit_char_no_slash)
    with False "1.IH" show ?thesis
      by (subst str_nat.simps) auto
  qed
qed

lemma dec_val_snoc: "dec_val (s @ [c]) = 10 * dec_val s + digit_val c"
  by (simp add: dec_val_def)

lemma dec_val_str_nat: "dec_val (str_nat n) = n"
proof (induction n rule: str_nat.induct)
  case (1 n)
  show ?case
  proof (cases "n < 10")
    case True
    then show ?thesis
      by (subst str_nat.simps) (simp add: dec_val_def digit_val_digit_char)
  next
    case False
    have "digit_val (digit_char (n mod 10)) = n mod 10"
      by (rule digit_val_digit_char) simp
    with False "1.IH" show ?thesis
      by (subst str_nat.simps) (simp add: dec_val_snoc)
  qed
qed

lemma dec_val_zeros: "dec_val (replicate k (CHR ''0'') @ s) = dec_val s"
proof -
  have "foldl (\<lambda>a c. 10 * a + digit_val c) 0 (replicate k (CHR ''0'')) = 0"
    by (induction k) (simp_all add: digit_val_def)
  then show ?thesis
    by (simp add: dec_val_def)
qed

lemma dec_val_fmt_04d: "dec_val (fmt_04d n) = n"
  by (simp add: fmt_04d_def dec_val_zeros dec_val_str_nat)

lemma fmt_04d_inject: "fmt_04d n = fmt_04d m \<Longrightarrow> n = m"
  by (metis dec_val_fmt_04d)

lemma fmt_04d_no_slash: "CHR ''/'' \<notin> set (fmt_04d n)"
  by (simp add: fmt_04d_def str_nat_no_slash)

lemma img_filename_no_slash: "CHR ''/'' \<notin> set (img_filename n)"
  by (simp add: img_filename_def fmt_04d_no_slash)

lemma img_filename_inject: "img_filename n = img_filename m \<Longrightarrow> n = m"
  by (simp add: img_filename_def fmt_04d_inject)

lemma os_path_join_relative:
  assumes "a \<noteq> []" "last a \<noteq> CHR ''/''" "b \<noteq> []" "CHR ''/'' \<notin> set b"
  shows "os_path_join a b = a @ ''/'' @ b"
proof -
  have "hd b \<noteq> CHR ''/''"
    using assms(3,4) by (cases b) auto
  then show ?thesis
    using assms(1,2) by (simp add: os_path_join_def)
qed

lemma output_dir_eq:
  "valid_name S \<Longrightarrow> os_path_join OUTPUT_FOLDER S = OUTPUT_FOLDER @ ''/'' @ S"
  by (rule os_path_join_relative) (simp_all add: valid_name_def OUTPUT_FOLDER_def)

lemma img_path_eq:
  assumes "valid_name S"
  shows "img_path (os_path_join OUTPUT_FOLDER S) n = OUTPUT_FOLDER @ ''/'' @ S @ ''/'' @ img_filename n"
proof -
  have in_S: "last S \<in> set S"
    using assms by (simp add: valid_name_def)
  have "last S \<noteq> CHR ''/''"
  proof
    assume "last S = CHR ''/''"
    with in_S have "CHR ''/'' \<in> set S" by simp
    with assms show False by (simp add: valid_name_def)
  qed
  then have "last (OUTPUT_FOLDER @ ''/'' @ S) \<noteq> CHR ''/''"
    using assms by (simp add: valid_name_def)
  moreover have "img_filename n \<noteq> []"
    by (simp add: img_filename_def)
  ultimately have "os_path_join (OUTPUT_FOLDER @ ''/'' @ S) (img_filename n) =
      (OUTPUT_FOLDER @ ''/'' @ S) @ ''/'' @ img_filename n"
    by (intro os_path_join_relative) (simp_all add: img_filename_no_slash)
  then show ?thesis
    using assms by (simp add: img_path_def output_dir_eq img_filename_def)
qed

lemma dirname_child:
  assumes "CHR ''/'' \<notin> set n"
  shows "dirname (d @ ''/'' @ n) = d"
proof -
  have "dropWhile (\<lambda>c. c \<noteq> CHR ''/'') (rev n @ CHR ''/'' # rev d) =
      dropWhile (\<lambda>c. c \<noteq> CHR ''/'') (CHR ''/'' # rev d)"
    using assms by (intro dropWhile_append2) auto
  then show ?thesis
    by (simp add: dirname_def)
qed

lemma basename_child:
  assumes "CHR ''/'' \<notin> set n"
  shows "basename (d @ ''/'' @ n) = n"
proof -
  have "takeWhile (\<lambda>c. c \<noteq> CHR ''/'') (rev n @ CHR ''/'' # rev d) =
      rev n @ takeWhile (\<lambda>c. c \<noteq> CHR ''/'') (CHR ''/'' # rev d)"
    using assms by (intro takeWhile_append2) auto
  then show ?thesis
    by (simp add: basename_def)
qed

lemma dirname_img_path:
  "valid_name S \<Longrightarrow> dirname (img_path (os_path_join OUTPUT_FOLDER S) n) = OUTPUT_FOLDER @ ''/'' @ S"
  using dirname_child [OF img_filename_no_slash, of "OUTPUT_FOLDER @ ''/'' @ S" n]
  by (simp add: img_path_eq)

lemma dirname_output_dir:
  "valid_name S \<Longrightarrow> dirname (os_path_join OUTPUT_FOLDER S) = OUTPUT_FOLDER"
  using dirname_child [of S OUTPUT_FOLDER] by (simp add: output_dir_eq valid_name_def)

lemma label_img_path:
  "valid_name S \<Longrightarrow> basename (dirname (img_path (os_path_join OUTPUT_FOLDER S) n)) = S"
  using basename_child [of S OUTPUT_FOLDER] by (simp add: dirname_img_path valid_name_def)

subsection \<open>What a letter folder adds, and what it leaves alone\<close>

lemma keys_write_file:
  "map fst (write_file p x fs) = (if p \<in> set (map fst fs) then map fst fs else map fst fs @ [p])"
  by (induction fs) (auto simp: image_iff, force+)

lemma glob_count_write_file:
  assumes "dirname p \<noteq> d"
  shows "glob_count d suf (s\<lparr>files := write_file p x (files s)\<rparr>) = glob_count d suf s"
  using assms by (simp add: glob_count_def keys_write_file)

lemma dirs_store: "dirs (store ws s) = dirs s"
  by (simp add: store_def)

lemma glob_count_store:
  assumes "\<And>p. p \<in> set (map fst ws) \<Longrightarrow> dirname p \<noteq> d"
  shows "glob_count d suf (store ws s) = glob_count d suf s"
  using assms
proof (induction ws arbitrary: s)
  case Nil
  show ?case by (simp add: store_Nil)
next
  case (Cons a ws)
  obtain p x where a: "a = (p, x)" by (cases a)
  have "dirname p \<noteq> d" using Cons.prems [of p] a by simp
  then have "glob_count d suf (s\<lparr>files := write_file p x (files s)\<rparr>) = glob_count d suf s"
    by (rule glob_count_write_file)
  moreover have "glob_count d suf (store ws (s\<lparr>files := write_file p x (files s)\<rparr>)) =
      glob_count d suf (s\<lparr>files := write_file p x (files s)\<rparr>)"
    using Cons.prems by (intro Cons.IH) simp
  ultimately show ?case by (simp add: a store_Cons)
qed

lemma glob_count_new_dir:
  assumes "dirname q \<noteq> d"
  shows "glob_count d suf (s\<lparr>dirs := dirs s @ [q]\<rparr>) = glob_count d suf s"
  using assms by (simp add: glob_count_def)

lemma dirname_shorter:
  assumes "CHR ''/'' \<in> set p"
  shows "length (dirname p) < length p"
proof -
  let ?r = "dropWhile (\<lambda>c. c \<noteq> CHR ''/'') (rev p)"
  have "?r \<noteq> []"
    using assms by (simp add: dropWhile_eq_Nil_conv)
  then have "length (tl ?r) < length ?r" by (cases ?r) simp_all
  moreover have "length ?r \<le> length (rev p)" by (rule length_dropWhile_le)
  ultimately show ?thesis by (simp add: dirname_def)
qed

lemma glob_count_makedirs:
  assumes "makedirs q w = (None, w1)" and "dirname q \<noteq> d"
  shows "glob_count d suf (fsys w1) = glob_count d suf (fsys w)"
  using assms
  by (auto simp: makedirs_def log_event_def Let_def glob_count_new_dir split: if_splits)

lemma trace_makedirs:
  assumes "makedirs q w = (r, w1)"
  shows "trace w1 = trace w @ [MakeDirs q]"
  using assms by (auto simp: makedirs_def log_event_def Let_def split: if_splits)

lemma files_makedirs:
  assumes "makedirs q w = (r, w1)"
  shows "files (fsys w1) = files (fsys w)"
  using assms by (auto simp: makedirs_def log_event_def Let_def split: if_splits)

lemma folder_skipped:
  "video_files_of L = [] \<Longrightarrow> process_letter_folder rs L s = (None, s)"
  by (cases s) (simp add: process_letter_folder_def)

lemma output_dir_inject:
  assumes "valid_name S" "valid_name S'"
    and "os_path_join OUTPUT_FOLDER S = os_path_join OUTPUT_FOLDER S'"
  shows "S = S'"
  using assms by (simp add: output_dir_eq)

lemma output_dir_not_root:
  "valid_name S \<Longrightarrow> os_path_join OUTPUT_FOLDER S \<noteq> OUTPUT_FOLDER"
  by (simp add: output_dir_eq)

lemma dirname_img_path_join:
  "valid_name S \<Longrightarrow>
     dirname (img_path (os_path_join OUTPUT_FOLDER S) n) = os_path_join OUTPUT_FOLDER S"
  using dirname_img_path [of S n] output_dir_eq [of S] by metis

lemma numbered_paths:
  assumes "p \<in> set (map fst (numbered od base imgs))"
  shows "\<exists>k. p = img_path od k"
  using assms by (auto simp: map_fst_numbered simp del: upt_Suc)

lemma process_letter_folder_effect:
  assumes res: "process_letter_folder rs L (tf, tv, w) = (None, tf', tv', w')"
    and valid: "valid_name (ename L)"
  shows "tf' = tf + length (folder_images rs L) \<and>
     tv' = tv + length (filter (\<lambda>v. decoded v \<noteq> None) (video_files_of L)) \<and>
     (\<exists>tr. trace w' = trace w @ tr \<and>
        written tr = numbered (os_path_join OUTPUT_FOLDER (ename L))
          (glob_count (os_path_join OUTPUT_FOLDER (ename L)) ''.jpg'' (fsys w)) (folder_images rs L) \<and>
        captured tr = map (\<lambda>v. os_path_join (os_path_join VIDEO_FOLDER (ename L)) (vname v))
          (video_files_of L)) \<and>
     (\<forall>S suf. valid_name S \<and> S \<noteq> ename L \<longrightarrow>
        glob_count (os_path_join OUTPUT_FOLDER S) suf (fsys w') =
        glob_count (os_path_join OUTPUT_FOLDER S) suf (fsys w))"
proof (cases "video_files_of L = []")
  case True
  then have "process_letter_folder rs L (tf, tv, w) = (None, tf, tv, w)"
    by (rule folder_skipped)
  with res have eq: "tf' = tf" "tv' = tv" "w' = w" by simp_all
  have imgs: "folder_images rs L = []"
    using True by (simp add: folder_images_def)
  have "trace w' = trace w @ [] \<and>
        written [] = numbered (os_path_join OUTPUT_FOLDER (ename L))
          (glob_count (os_path_join OUTPUT_FOLDER (ename L)) ''.jpg'' (fsys w)) (folder_images rs L) \<and>
        captured [] = map (\<lambda>v. os_path_join (os_path_join VIDEO_FOLDER (ename L)) (vname v))
          (video_files_of L)"
    using True by (simp add: eq imgs numbered_Nil)
  then have "\<exists>tr. trace w' = trace w @ tr \<and>
        written tr = numbered (os_path_join OUTPUT_FOLDER (ename L))
          (glob_count (os_path_join OUTPUT_FOLDER (ename L)) ''.jpg'' (fsys w)) (folder_images rs L) \<and>
        captured tr = map (\<lambda>v. os_path_join (os_path_join VIDEO_FOLDER (ename L)) (vname v))
          (video_files_of L)"
    by (rule exI)
  then show ?thesis
    using True by (simp add: eq imgs)
next
  case False
  let ?od = "os_path_join OUTPUT_FOLDER (ename L)"
  let ?fp = "os_path_join VIDEO_FOLDER (ename L)"
  let ?imgs = "folder_images rs L"
  obtain r w1 where mk: "makedirs ?od w = (r, w1)"
    by (cases "makedirs ?od w")
  have r: "r = None"
    using res False mk by (cases r) (simp_all add: process_letter_folder_def Let_def)
  let ?ec1 = "glob_count ?od ''.jpg'' (fsys w1)"
  obtain tr where
    f: "fold (process_video rs ?fp ?od ?ec1) (video_files_of L) (0, tv, w1) =
      (0 + length ?imgs,
       tv + length (filter (\<lambda>v. decoded v \<noteq> None) (video_files_of L)),
       \<lparr>fsys = store (numbered ?od (?ec1 + 0) ?imgs) (fsys w1), trace = trace w1 @ tr\<rparr>)"
    and wr: "written tr = numbered ?od (?ec1 + 0) ?imgs"
    and ca: "captured tr = map (\<lambda>v. os_path_join ?fp (vname v)) (video_files_of L)"
    using fold_videos_effect [of rs ?fp ?od ?ec1 "video_files_of L" 0 tv w1]
    unfolding folder_images_def by blast
  have out: "tf' = tf + length ?imgs"
    "tv' = tv + length (filter (\<lambda>v. decoded v \<noteq> None) (video_files_of L))"
    "w' = \<lparr>fsys = store (numbered ?od (?ec1 + 0) ?imgs) (fsys w1), trace = trace w1 @ tr\<rparr>"
    using res False mk r f by (simp_all add: process_letter_folder_def Let_def)
  have dn: "dirname ?od = OUTPUT_FOLDER"
    using valid by (rule dirname_output_dir)
  have ec: "?ec1 = glob_count ?od ''.jpg'' (fsys w)"
    using mk [unfolded r] dn output_dir_not_root [OF valid]
    by (intro glob_count_makedirs [of ?od w w1]) simp_all
  have tr1: "trace w1 = trace w @ [MakeDirs ?od]"
    using mk by (rule trace_makedirs)
  have "trace w' = trace w @ ([MakeDirs ?od] @ tr)"
    by (simp add: out tr1)
  moreover have "written ([MakeDirs ?od] @ tr) =
      numbered ?od (glob_count ?od ''.jpg'' (fsys w)) ?imgs"
    using wr ec by simp
  moreover have "captured ([MakeDirs ?od] @ tr) =
      map (\<lambda>v. os_path_join ?fp (vname v)) (video_files_of L)"
    using ca by simp
  ultimately have ex: "\<exists>tr. trace w' = trace w @ tr \<and>
      written tr = numbered ?od (glob_count ?od ''.jpg'' (fsys w)) ?imgs \<and>
      captured tr = map (\<lambda>v. os_path_join ?fp (vname v)) (video_files_of L)"
    by blast
  have frame: "glob_count (os_path_join OUTPUT_FOLDER S) suf (fsys w') =
      glob_count (os_path_join OUTPUT_FOLDER S) suf (fsys w)"
    if S: "valid_name S" "S \<noteq> ename L" for S suf
  proof -
    let ?d = "os_path_join OUTPUT_FOLDER S"
    have ne: "?od \<noteq> ?d"
      using output_dir_inject [OF valid S(1)] S(2) by blast
    have "dirname p \<noteq> ?d" if mem: "p \<in> set (map fst (numbered ?od (?ec1 + 0) ?imgs))" for p
    proof -
      obtain k where "p = img_path ?od k"
        using numbered_paths [OF mem] by blast
      then have "dirname p = ?od"
        by (simp only: dirname_img_path_join [OF valid])
      with ne show ?thesis by simp
    qed
    then have "glob_count ?d suf (store (numbered ?od (?ec1 + 0) ?imgs) (fsys w1)) =
        glob_count ?d suf (fsys w1)"
      by (rule glob_count_store)
    moreover have "glob_count ?d suf (fsys w1) = glob_count ?d suf (fsys w)"
      using mk [unfolded r] dn output_dir_not_root [OF S(1)]
      by (intro glob_count_makedirs [of ?od w w1]) simp_all
    ultimately show ?thesis
      by (simp add: out)
  qed
  show ?thesis
    using out(1,2) ex frame by blast
qed

subsection \<open>The loop over the letter folders and the whole run\<close>

lemma folder_effect:
  assumes res: "process_letter_folder rs L (tf, tv, w) = (None, tf', tv', w')"
    and valid: "valid_name (ename L)"
  shows "tf' = tf + length (folder_images rs L) \<and>
     tv' = tv + length (opened (video_files_of L)) \<and>
     (\<exists>tr. trace w' = trace w @ tr \<and> written tr = folder_writes rs (fsys w) L \<and>
        captured tr = folder_captures L) \<and>
     (\<forall>L'. valid_name (ename L') \<and> ename L' \<noteq> ename L \<longrightarrow>
        folder_writes rs (fsys w') L' = folder_writes rs (fsys w) L')"
  using process_letter_folder_effect [OF res valid]
  unfolding folder_writes_def folder_captures_def opened_def by simp

lemma folder_raises:
  assumes "process_letter_folder rs L (tf, tv, w) = (Some e, tf', tv', w')"
  shows "tf' = tf \<and> tv' = tv \<and>
     trace w' = trace w @ [MakeDirs (os_path_join OUTPUT_FOLDER (ename L))]"
proof -
  let ?od = "os_path_join OUTPUT_FOLDER (ename L)"
  have ne: "video_files_of L \<noteq> []"
    using assms folder_skipped [of L rs "(tf, tv, w)"] by auto
  obtain r w1 where mk: "makedirs ?od w = (r, w1)"
    by (cases "makedirs ?od w")
  obtain e' where r: "r = Some e'"
    using assms ne mk
    by (cases r) (auto simp: process_letter_folder_def Let_def split: prod.splits)
  have "tf' = tf" "tv' = tv" "w' = w1"
    using assms ne mk r by (simp_all add: process_letter_folder_def Let_def)
  then show ?thesis
    using trace_makedirs [OF mk] by simp
qed

lemma letter_loop_effect:
  assumes "letter_loop rs Ls (tf, tv, w) = (st, tf', tv', w')"
    and "distinct (map ename Ls)"
    and "\<And>L. L \<in> set Ls \<Longrightarrow> valid_name (ename L)"
  shows "\<exists>n tr. n \<le> length Ls \<and> (st = Completed \<longrightarrow> n = length Ls) \<and>
     tf' = tf + length (concat (map (folder_images rs) (take n Ls))) \<and>
     tv' = tv + length (opened (concat (map video_files_of (take n Ls)))) \<and>
     trace w' = trace w @ tr \<and>
     written tr = concat (map (folder_writes rs (fsys w)) (take n Ls)) \<and>
     captured tr = concat (map folder_captures (take n Ls))"
  using assms
proof (induction Ls arbitrary: tf tv w)
  case Nil
  then have "tf' = tf" "tv' = tv" "w' = w" by simp_all
  then show ?case
    by (intro exI [of _ 0] exI [of _ "[]"]) (simp add: opened_def)
next
  case (Cons L Ls)
  obtain r tf1 tv1 w1 where step: "process_letter_folder rs L (tf, tv, w) = (r, tf1, tv1, w1)"
    by (cases "process_letter_folder rs L (tf, tv, w)")
  show ?case
  proof (cases r)
    case (Some e)
    have out: "st = Raised e" "tf' = tf1" "tv' = tv1" "w' = w1"
      using Cons.prems(1) step Some by simp_all
    note folder_raises [OF step [unfolded Some]]
    then show ?thesis
      by (intro exI [of _ 0] exI [of _ "[MakeDirs (os_path_join OUTPUT_FOLDER (ename L))]"])
        (simp add: out opened_def)
  next
    case None
    have rest: "letter_loop rs Ls (tf1, tv1, w1) = (st, tf', tv', w')"
      using Cons.prems(1) step None by simp
    have valid: "valid_name (ename L)"
      using Cons.prems(3) by simp
    note eff = folder_effect [OF step [unfolded None] valid]
    obtain tr1 where tr1: "trace w1 = trace w @ tr1" "written tr1 = folder_writes rs (fsys w) L"
      "captured tr1 = folder_captures L"
      using eff by blast
    have same: "folder_writes rs (fsys w1) L' = folder_writes rs (fsys w) L'"
      if "L' \<in> set Ls" for L'
    proof -
      have "valid_name (ename L')" using Cons.prems(3) that by simp
      moreover have "ename L' \<noteq> ename L" using Cons.prems(2) that by (auto simp: image_iff)
      ultimately show ?thesis using eff by blast
    qed
    have "\<exists>n tr. n \<le> length Ls \<and> (st = Completed \<longrightarrow> n = length Ls) \<and>
       tf' = tf1 + length (concat (map (folder_images rs) (take n Ls))) \<and>
       tv' = tv1 + length (opened (concat (map video_files_of (take n Ls)))) \<and>
       trace w' = trace w1 @ tr \<and>
       written tr = concat (map (folder_writes rs (fsys w1)) (take n Ls)) \<and>
       captured tr = concat (map folder_captures (take n Ls))"
      using Cons.prems(2,3) by (intro Cons.IH [OF rest]) simp_all
    then obtain n tr2 where n: "n \<le> length Ls" "st = Completed \<longrightarrow> n = length Ls"
      and cnt: "tf' = tf1 + length (concat (map (folder_images rs) (take n Ls)))"
        "tv' = tv1 + length (opened (concat (map video_files_of (take n Ls))))"
      and tr2: "trace w' = trace w1 @ tr2"
        "written tr2 = concat (map (folder_writes rs (fsys w1)) (take n Ls))"
        "captured tr2 = concat (map folder_captures (take n Ls))"
      by blast
    have maps: "map (folder_writes rs (fsys w1)) (take n Ls) =
        map (folder_writes rs (fsys w)) (take n Ls)"
      using same by (intro map_cong) (auto dest: in_set_takeD)
    have "Suc n \<le> length (L # Ls)" "st = Completed \<longrightarrow> Suc n = length (L # Ls)"
      using n by simp_all
    moreover have "tf' = tf + length (concat (map (folder_images rs) (take (Suc n) (L # Ls))))"
      using cnt(1) eff by simp
    moreover have "tv' = tv + length (opened (concat (map video_files_of (take (Suc n) (L # Ls)))))"
      using cnt(2) eff by (simp add: opened_def)
    moreover have "trace w' = trace w @ (tr1 @ tr2)"
      by (simp add: tr1(1) tr2(1))
    moreover have "written (tr1 @ tr2) =
        concat (map (folder_writes rs (fsys w)) (take (Suc n) (L # Ls)))"
      by (simp add: written_append tr1(2) tr2(2) maps)
    moreover have "captured (tr1 @ tr2) = concat (map folder_captures (take (Suc n) (L # Ls)))"
      by (simp add: captured_append tr1(3) tr2(3))
    ultimately show ?thesis
      by (intro exI [of _ "Suc n"] exI [of _ "tr1 @ tr2"] conjI)
  qed
qed

lemma distinct_names_sorted:
  assumes "distinct (map ename entries)"
  shows "distinct (map ename (sort_key ename (filter P entries)))"
proof -
  have "distinct (map ename (filter P entries))"
    using assms by (rule distinct_map_filter)
  then have "distinct (filter P entries)" "inj_on ename (set (filter P entries))"
    by (simp_all add: distinct_map)
  then show ?thesis
    by (simp add: distinct_map)
qed

lemma dirname_output_folder: "dirname OUTPUT_FOLDER = []"
  by (simp add: dirname_def OUTPUT_FOLDER_def)

lemma folder_writes_makedirs_root:
  assumes "makedirs OUTPUT_FOLDER w = (None, w1)" and "valid_name (ename L)"
  shows "folder_writes rs (fsys w1) L = folder_writes rs (fsys w) L"
proof -
  have "dirname OUTPUT_FOLDER \<noteq> os_path_join OUTPUT_FOLDER (ename L)"
    using assms(2) by (simp add: dirname_output_folder output_dir_eq)
  with assms(1) have "glob_count (os_path_join OUTPUT_FOLDER (ename L)) ''.jpg'' (fsys w1) =
      glob_count (os_path_join OUTPUT_FOLDER (ename L)) ''.jpg'' (fsys w)"
    by (rule glob_count_makedirs)
  then show ?thesis
    by (simp add: folder_writes_def)
qed

lemma extract_frames_effect:
  assumes run: "extract_frames rs videos fs0 = (st, tf, tv, w)"
    and dist: "distinct (entry_names videos)"
    and valid: "\<And>S. S \<in> set (entry_names videos) \<Longrightarrow> valid_name S"
  shows "\<exists>n. n \<le> length (letter_folders_of videos) \<and>
     (st = Completed \<longrightarrow> n = length (letter_folders_of videos)) \<and>
     tf = length (concat (map (folder_images rs) (take n (letter_folders_of videos)))) \<and>
     tv = length (opened (concat (map video_files_of (take n (letter_folders_of videos))))) \<and>
     written (trace w) = concat (map (folder_writes rs fs0) (take n (letter_folders_of videos))) \<and>
     captured (trace w) = concat (map folder_captures (take n (letter_folders_of videos)))"
proof -
  let ?w0 = "\<lparr>fsys = fs0, trace = []\<rparr>"
  obtain r w1 where mk: "makedirs OUTPUT_FOLDER ?w0 = (r, w1)"
    by (cases "makedirs OUTPUT_FOLDER ?w0")
  have tr1: "trace w1 = [MakeDirs OUTPUT_FOLDER]"
    using trace_makedirs [OF mk] by simp
  have early: ?thesis if "tf = 0" "tv = 0" "st \<noteq> Completed" "w = ?w0 \<or> w = w1"
    using that tr1 by (intro exI [of _ 0]) (auto simp: opened_def)
  show ?thesis
  proof (cases videos)
    case Absent
    with run show ?thesis by (intro early) (auto simp: extract_frames_def)
  next
    case NotADirectory
    with run mk show ?thesis
      by (intro early) (auto simp: extract_frames_def split: option.splits)
  next
    case (Directory entries)
    let ?Ls = "sort_key ename (filter is_dir entries)"
    have Ls: "letter_folders_of videos = ?Ls"
      by (simp add: letter_folders_of_def Directory)
    show ?thesis
    proof (cases "r = None \<and> filter is_dir entries \<noteq> []")
      case False
      with run mk Directory show ?thesis
        by (intro early) (auto simp: extract_frames_def Let_def split: option.splits if_splits)
    next
      case True
      then have loop: "letter_loop rs ?Ls (0, 0, w1) = (st, tf, tv, w)"
        using run mk Directory by (simp add: extract_frames_def Let_def)
      have d: "distinct (map ename ?Ls)"
        using dist by (intro distinct_names_sorted) (simp add: entry_names_def Directory)
      have v: "valid_name (ename L)" if "L \<in> set ?Ls" for L
        using that by (intro valid) (auto simp: entry_names_def Directory)
      obtain n tr where n: "n \<le> length ?Ls" "st = Completed \<longrightarrow> n = length ?Ls"
        and cnt: "tf = 0 + length (concat (map (folder_images rs) (take n ?Ls)))"
          "tv = 0 + length (opened (concat (map video_files_of (take n ?Ls))))"
        and tr: "trace w = trace w1 @ tr"
          "written tr = concat (map (folder_writes rs (fsys w1)) (take n ?Ls))"
          "captured tr = concat (map folder_captures (take n ?Ls))"
        using letter_loop_effect [OF loop d v] by blast
      have "folder_writes rs (fsys w1) L = folder_writes rs fs0 L" if "L \<in> set (take n ?Ls)" for L
        using folder_writes_makedirs_root [of ?w0 w1 L rs] mk True v [of L] that
        by (auto dest: in_set_takeD)
      then have maps: "map (folder_writes rs (fsys w1)) (take n ?Ls) =
          map (folder_writes rs fs0) (take n ?Ls)"
        by (intro map_cong) simp_all
      have "written (trace w) = concat (map (folder_writes rs fs0) (take n ?Ls))"
        by (simp add: tr(1,2) tr1 written_append maps)
      moreover have "captured (trace w) = concat (map folder_captures (take n ?Ls))"
        by (simp add: tr(1,3) tr1 captured_append)
      ultimately show ?thesis
        using n cnt unfolding Ls by (intro exI [of _ n]) simp
    qed
  qed
qed

subsection \<open>Where every written image comes from\<close>

lemma numbered_member:
  assumes "(p, x) \<in> set (numbered od base imgs)"
  shows "(\<exists>k. p = img_path od k) \<and> x \<in> set imgs"
proof -
  have "p \<in> set (map fst (numbered od base imgs))"
    using assms by force
  then have "\<exists>k. p = img_path od k" by (rule numbered_paths)
  moreover have "x \<in> set (map snd (numbered od base imgs))"
    using assms by force
  then have "x \<in> set imgs" by (simp only: map_snd_numbered)
  ultimately show ?thesis by blast
qed

lemma folder_origin:
  assumes "process_letter_folder rs L (tf, tv, w) = (r, tf', tv', w')"
  shows "\<exists>tr. trace w' = trace w @ tr \<and>
     (r = None \<longrightarrow> tf' = tf + length (folder_images rs L) \<and>
        tv' = tv + length (opened (video_files_of L))) \<and>
     (r \<noteq> None \<longrightarrow> tf' = tf \<and> tv' = tv) \<and>
     map snd (written tr) = (if r = None then folder_images rs L else []) \<and>
     (\<forall>(p, x) \<in> set (written tr).
        (\<exists>k. p = img_path (os_path_join OUTPUT_FOLDER (ename L)) k) \<and> x \<in> set (folder_images rs L))"
proof (cases "video_files_of L = []")
  case True
  then have "process_letter_folder rs L (tf, tv, w) = (None, tf, tv, w)"
    by (rule folder_skipped)
  with assms have "r = None" "tf' = tf" "tv' = tv" "w' = w" by simp_all
  then show ?thesis
    using True by (intro exI [of _ "[]"]) (simp add: folder_images_def opened_def)
next
  case False
  let ?od = "os_path_join OUTPUT_FOLDER (ename L)"
  let ?fp = "os_path_join VIDEO_FOLDER (ename L)"
  obtain r1 w1 where mk: "makedirs ?od w = (r1, w1)"
    by (cases "makedirs ?od w")
  have tr1: "trace w1 = trace w @ [MakeDirs ?od]"
    using mk by (rule trace_makedirs)
  show ?thesis
  proof (cases r1)
    case (Some e)
    then have "r = Some e" "tf' = tf" "tv' = tv" "w' = w1"
      using assms False mk by (simp_all add: process_letter_folder_def Let_def)
    then show ?thesis
      using tr1 by (intro exI [of _ "[MakeDirs ?od]"]) simp
  next
    case None
    let ?ec = "glob_count ?od ''.jpg'' (fsys w1)"
    obtain tr where
      f: "fold (process_video rs ?fp ?od ?ec) (video_files_of L) (0, tv, w1) =
        (0 + length (folder_images rs L),
         tv + length (filter (\<lambda>v. decoded v \<noteq> None) (video_files_of L)),
         \<lparr>fsys = store (numbered ?od (?ec + 0) (folder_images rs L)) (fsys w1),
          trace = trace w1 @ tr\<rparr>)"
      and wr: "written tr = numbered ?od (?ec + 0) (folder_images rs L)"
      using fold_videos_effect [of rs ?fp ?od ?ec "video_files_of L" 0 tv w1]
      unfolding folder_images_def by blast
    have out: "r = None" "tf' = tf + length (folder_images rs L)"
      "tv' = tv + length (opened (video_files_of L))"
      "trace w' = trace w1 @ tr"
      using assms False mk None f by (auto simp: process_letter_folder_def Let_def opened_def)
    have "\<forall>(p, x) \<in> set (written ([MakeDirs ?od] @ tr)).
        (\<exists>k. p = img_path ?od k) \<and> x \<in> set (folder_images rs L)"
      using numbered_member [of _ _ ?od "?ec + 0" "folder_images rs L"] by (auto simp: wr)
    moreover have "map snd (written ([MakeDirs ?od] @ tr)) = folder_images rs L"
      by (simp add: wr map_snd_numbered)
    ultimately show ?thesis
      using out tr1 by (intro exI [of _ "[MakeDirs ?od] @ tr"]) simp
  qed
qed

lemma letter_loop_origin:
  assumes "letter_loop rs Ls (tf, tv, w) = (st, tf', tv', w')"
  shows "\<exists>n tr. n \<le> length Ls \<and> (st = Completed \<longrightarrow> n = length Ls) \<and>
     tf' = tf + length (concat (map (folder_images rs) (take n Ls))) \<and>
     tv' = tv + length (opened (concat (map video_files_of (take n Ls)))) \<and>
     trace w' = trace w @ tr \<and>
     map snd (written tr) = concat (map (folder_images rs) (take n Ls)) \<and>
     (\<forall>(p, x) \<in> set (written tr). \<exists>L \<in> set Ls.
        (\<exists>k. p = img_path (os_path_join OUTPUT_FOLDER (ename L)) k) \<and> x \<in> set (folder_images rs L))"
  using assms
proof (induction Ls arbitrary: tf tv w)
  case Nil
  then have "tf' = tf" "tv' = tv" "w' = w" by simp_all
  then show ?case
    by (intro exI [of _ 0] exI [of _ "[]"]) (simp add: opened_def)
next
  case (Cons L Ls)
  obtain r tf1 tv1 w1 where step: "process_letter_folder rs L (tf, tv, w) = (r, tf1, tv1, w1)"
    by (cases "process_letter_folder rs L (tf, tv, w)")
  obtain tr1 where tr1: "trace w1 = trace w @ tr1"
    and ok: "r = None \<longrightarrow> tf1 = tf + length (folder_images rs L) \<and>
        tv1 = tv + length (opened (video_files_of L))"
    and bad: "r \<noteq> None \<longrightarrow> tf1 = tf \<and> tv1 = tv"
    and im1: "map snd (written tr1) = (if r = None then folder_images rs L else [])"
    and or1: "\<forall>(p, x) \<in> set (written tr1).
        (\<exists>k. p = img_path (os_path_join OUTPUT_FOLDER (ename L)) k) \<and> x \<in> set (folder_images rs L)"
    using folder_origin [OF step] by blast
  show ?case
  proof (cases r)
    case (Some e)
    have out: "st = Raised e" "tf' = tf1" "tv' = tv1" "w' = w1"
      using Cons.prems step Some by simp_all
    show ?thesis
      using bad or1 im1 tr1 Some
      by (intro exI [of _ 0] exI [of _ tr1]) (auto simp: out opened_def)
  next
    case None
    have rest: "letter_loop rs Ls (tf1, tv1, w1) = (st, tf', tv', w')"
      using Cons.prems step None by simp
    obtain n tr2 where n: "n \<le> length Ls" "st = Completed \<longrightarrow> n = length Ls"
      and cnt: "tf' = tf1 + length (concat (map (folder_images rs) (take n Ls)))"
        "tv' = tv1 + length (opened (concat (map video_files_of (take n Ls))))"
      and tr2: "trace w' = trace w1 @ tr2"
      and im2: "map snd (written tr2) = concat (map (folder_images rs) (take n Ls))"
      and or2: "\<forall>(p, x) \<in> set (written tr2). \<exists>L \<in> set Ls.
        (\<exists>k. p = img_path (os_path_join OUTPUT_FOLDER (ename L)) k) \<and> x \<in> set (folder_images rs L)"
      using Cons.IH [OF rest] by blast
    have "Suc n \<le> length (L # Ls)" "st = Completed \<longrightarrow> Suc n = length (L # Ls)"
      using n by simp_all
    moreover have "tf' = tf + length (concat (map (folder_images rs) (take (Suc n) (L # Ls))))"
      using cnt(1) ok None by simp
    moreover have "tv' = tv + length (opened (concat (map video_files_of (take (Suc n) (L # Ls)))))"
      using cnt(2) ok None by (simp add: opened_def)
    moreover have "trace w' = trace w @ (tr1 @ tr2)"
      by (simp add: tr1 tr2)
    moreover have "map snd (written (tr1 @ tr2)) =
        concat (map (folder_images rs) (take (Suc n) (L # Ls)))"
      using im1 im2 None by (simp add: written_append)
    moreover have "\<forall>(p, x) \<in> set (written (tr1 @ tr2)). \<exists>L' \<in> set (L # Ls).
        (\<exists>k. p = img_path (os_path_join OUTPUT_FOLDER (ename L')) k) \<and>
        x \<in> set (folder_images rs L')"
      using or1 or2 by (auto simp: written_append)
    ultimately show ?thesis
      by (intro exI [of _ "Suc n"] exI [of _ "tr1 @ tr2"] conjI)
  qed
qed

lemma extract_frames_origin:
  assumes run: "extract_frames rs videos fs0 = (st, tf, tv, w)"
  shows "\<exists>n. n \<le> length (letter_folders_of videos) \<and>
     (st = Completed \<longrightarrow> n = length (letter_folders_of videos)) \<and>
     tf = length (concat (map (folder_images rs) (take n (letter_folders_of videos)))) \<and>
     tv = length (opened (concat (map video_files_of (take n (letter_folders_of videos))))) \<and>
     map snd (written (trace w)) =
       concat (map (folder_images rs) (take n (letter_folders_of videos))) \<and>
     (\<forall>(p, x) \<in> set (written (trace w)). \<exists>L \<in> set (letter_folders_of videos).
        (\<exists>k. p = img_path (os_path_join OUTPUT_FOLDER (ename L)) k) \<and> x \<in> set (folder_images rs L))"
proof -
  let ?w0 = "\<lparr>fsys = fs0, trace = []\<rparr>"
  obtain r w1 where mk: "makedirs OUTPUT_FOLDER ?w0 = (r, w1)"
    by (cases "makedirs OUTPUT_FOLDER ?w0")
  have tr1: "trace w1 = [MakeDirs OUTPUT_FOLDER]"
    using trace_makedirs [OF mk] by simp
  have early: ?thesis if "tf = 0" "tv = 0" "st \<noteq> Completed" "w = ?w0 \<or> w = w1"
    using that tr1 by (intro exI [of _ 0]) (auto simp: opened_def)
  show ?thesis
  proof (cases videos)
    case Absent
    with run show ?thesis by (intro early) (auto simp: extract_frames_def)
  next
    case NotADirectory
    with run mk show ?thesis
      by (intro early) (auto simp: extract_frames_def split: option.splits)
  next
    case (Directory entries)
    let ?Ls = "sort_key ename (filter is_dir entries)"
    have Ls: "letter_folders_of videos = ?Ls"
      by (simp add: letter_folders_of_def Directory)
    show ?thesis
    proof (cases "r = None \<and> filter is_dir entries \<noteq> []")
      case False
      with run mk Directory show ?thesis
        by (intro early) (auto simp: extract_frames_def Let_def split: option.splits if_splits)
    next
      case True
      then have loop: "letter_loop rs ?Ls (0, 0, w1) = (st, tf, tv, w)"
        using run mk Directory by (simp add: extract_frames_def Let_def)
      obtain n tr where n: "n \<le> length ?Ls" "st = Completed \<longrightarrow> n = length ?Ls"
        and cnt: "tf = 0 + length (concat (map (folder_images rs) (take n ?Ls)))"
          "tv = 0 + length (opened (concat (map video_files_of (take n ?Ls))))"
        and tr: "trace w = trace w1 @ tr"
        and im: "map snd (written tr) = concat (map (folder_images rs) (take n ?Ls))"
        and orig: "\<forall>(p, x) \<in> set (written tr). \<exists>L \<in> set ?Ls.
          (\<exists>k. p = img_path (os_path_join OUTPUT_FOLDER (ename L)) k) \<and>
          x \<in> set (folder_images rs L)"
        using letter_loop_origin [OF loop] by blast
      have "written (trace w) = written tr"
        by (simp add: tr tr1)
      then show ?thesis
        using n cnt im orig unfolding Ls by (intro exI [of _ n]) simp
    qed
  qed
qed

subsection \<open>The example run\<close>

lemma demo_run:
  "extract_frames demo_resize demo_videos demo_fs = (Completed, 2, 1, demo_result)"
  by code_simp

lemma demo_names: "entry_names demo_videos = [''B'', ''A'', ''readme'']"
  by (simp add: entry_names_def demo_videos_def)

lemma demo_valid: "list_all valid_name (entry_names demo_videos)"
  by (simp add: demo_names valid_name_def)

lemma demo_distinct: "distinct (entry_names demo_videos)"
  by (simp add: demo_names)

subsection \<open>Sequential file naming\<close>

lemma shifted_range: "map (\<lambda>k. f (b + k)) [1..<Suc n] = map f [Suc b..<Suc b + n]"
proof -
  have "map (\<lambda>k. b + k) [1..<Suc n] = [Suc b..<Suc b + n]"
    by (induction n) simp_all
  then have "map f (map (\<lambda>k. b + k) [1..<Suc n]) = map f [Suc b..<Suc b + n]"
    by (rule arg_cong)
  then show ?thesis
    by (simp add: comp_def del: upt_Suc)
qed

lemma paths_folder_writes:
  "map fst (folder_writes rs fs0 L) =
     map (\<lambda>k. os_path_join (os_path_join OUTPUT_FOLDER (ename L))
                (''img_'' @ fmt_04d (glob_count (os_path_join OUTPUT_FOLDER (ename L)) ''.jpg'' fs0 + k)
                   @ ''.jpg''))
       [1..<Suc (length (folder_images rs L))]"
proof -
  let ?od = "os_path_join OUTPUT_FOLDER (ename L)"
  let ?ec = "glob_count ?od ''.jpg'' fs0"
  have "map fst (folder_writes rs fs0 L) =
      map (img_path ?od) [Suc ?ec..<Suc ?ec + length (folder_images rs L)]"
    by (simp only: folder_writes_def map_fst_numbered)
  also have "\<dots> = map (\<lambda>k. img_path ?od (?ec + k)) [1..<Suc (length (folder_images rs L))]"
    by (rule shifted_range [symmetric])
  finally show ?thesis
    by (simp only: img_path_def)
qed

lemma img_path_inject:
  assumes "valid_name S"
    and "img_path (os_path_join OUTPUT_FOLDER S) n = img_path (os_path_join OUTPUT_FOLDER S) m"
  shows "n = m"
proof -
  have "img_filename n = img_filename m"
    using assms(2) by (simp add: img_path_eq [OF assms(1)])
  then show ?thesis by (rule img_filename_inject)
qed

lemma distinct_folder_paths:
  assumes "valid_name (ename L)"
  shows "distinct (map fst (folder_writes rs fs0 L))"
proof -
  have "inj_on (img_path (os_path_join OUTPUT_FOLDER (ename L))) A" for A
    by (rule inj_onI) (rule img_path_inject [OF assms])
  then show ?thesis
    unfolding folder_writes_def map_fst_numbered by (simp add: distinct_map del: upt_Suc)
qed

lemma dirname_folder_paths:
  assumes "valid_name (ename L)" and "p \<in> set (map fst (folder_writes rs fs0 L))"
  shows "dirname p = os_path_join OUTPUT_FOLDER (ename L)"
proof -
  obtain k where "p = img_path (os_path_join OUTPUT_FOLDER (ename L)) k"
    using numbered_paths [OF assms(2) [unfolded folder_writes_def]] by blast
  then show ?thesis
    by (simp only: dirname_img_path_join [OF assms(1)])
qed

lemma distinct_all_paths:
  assumes "distinct (map ename Ls)" and "\<And>L. L \<in> set Ls \<Longrightarrow> valid_name (ename L)"
  shows "distinct (map fst (concat (map (folder_writes rs fs0) Ls)))"
  using assms
proof (induction Ls)
  case Nil
  show ?case by simp
next
  case (Cons L Ls)
  have vL: "valid_name (ename L)"
    using Cons.prems(2) by simp
  have d1: "distinct (map fst (folder_writes rs fs0 L))"
    using vL by (rule distinct_folder_paths)
  have d2: "distinct (map fst (concat (map (folder_writes rs fs0) Ls)))"
    using Cons.prems by (intro Cons.IH) simp_all
  have disj: "p \<notin> set (map fst (concat (map (folder_writes rs fs0) Ls)))"
    if p: "p \<in> set (map fst (folder_writes rs fs0 L))" for p
  proof
    assume "p \<in> set (map fst (concat (map (folder_writes rs fs0) Ls)))"
    then obtain L' where L': "L' \<in> set Ls" "p \<in> set (map fst (folder_writes rs fs0 L'))"
      by auto
    have vL': "valid_name (ename L')"
      using Cons.prems(2) L'(1) by simp
    have "os_path_join OUTPUT_FOLDER (ename L) = os_path_join OUTPUT_FOLDER (ename L')"
      using dirname_folder_paths [OF vL p] dirname_folder_paths [OF vL' L'(2)] by simp
    then have "ename L = ename L'"
      by (rule output_dir_inject [OF vL vL'])
    moreover have "ename L' \<noteq> ename L"
      using Cons.prems(1) L'(1) by (auto simp: image_iff)
    ultimately show False by simp
  qed
  have "set (map fst (folder_writes rs fs0 L)) \<inter>
      set (map fst (concat (map (folder_writes rs fs0) Ls))) = {}"
    using disj by blast
  with d1 d2 show ?case
    by (simp only: list.map concat.simps map_append distinct_append)
qed

text \<open>
  Claim C2. Let the entries of \<open>Videos\<close> have distinct names without separators, as
  directory entries do. Then the paths of the images written in a run are, letter folder by
  letter folder in the order visited, \<open>OUTPUT_FOLDER/S/img_%04d.jpg\<close> with the numbers
  \<open>existing_count + 1\<close>, \<open>existing_count + 2\<close>, ... up to
  \<open>existing_count\<close> plus the number of frames saved from all the videos of the folder,
  where \<open>existing_count\<close> is the number of \<open>*.jpg\<close> entries of
  \<open>OUTPUT_FOLDER/S\<close> in the file system the run starts in; and no two writes of the
  run have the same path. Here \<open>n\<close> is the number of letter folders the run gets
  through: all of them when it completes.
\<close>

theorem sequential_file_naming:
  assumes run: "extract_frames rs videos fs0 = (st, tf, tv, w)"
    and dist: "distinct (entry_names videos)"
    and valid: "list_all valid_name (entry_names videos)"
  shows "\<exists>n. n \<le> length (letter_folders_of videos) \<and>
     (st = Completed \<longrightarrow> n = length (letter_folders_of videos)) \<and>
     map fst (written (trace w)) =
       concat (map (\<lambda>L. map (\<lambda>k. os_path_join (os_path_join OUTPUT_FOLDER (ename L))
                     (''img_'' @
                      fmt_04d (glob_count (os_path_join OUTPUT_FOLDER (ename L)) ''.jpg'' fs0 + k) @
                      ''.jpg''))
                    [1..<Suc (length (folder_images rs L))])
          (take n (letter_folders_of videos))) \<and>
     distinct (map fst (written (trace w)))"
proof -
  let ?Ls = "letter_folders_of videos"
  have v: "valid_name S" if "S \<in> set (entry_names videos)" for S
    using valid that by (simp add: list_all_iff)
  obtain n where n: "n \<le> length ?Ls" "st = Completed \<longrightarrow> n = length ?Ls"
    and wr: "written (trace w) = concat (map (folder_writes rs fs0) (take n ?Ls))"
    using extract_frames_effect [OF run dist v] by blast
  have dLs: "distinct (map ename ?Ls)"
  proof (cases videos)
    case (Directory entries)
    then show ?thesis
      using dist by (simp add: letter_folders_of_def entry_names_def distinct_names_sorted)
  qed (simp_all add: letter_folders_of_def)
  have vLs: "valid_name (ename L)" if "L \<in> set ?Ls" for L
  proof (cases videos)
    case (Directory entries)
    then show ?thesis
      using that by (intro v) (auto simp: letter_folders_of_def entry_names_def)
  qed (use that in \<open>simp_all add: letter_folders_of_def\<close>)
  have "distinct (take n (map ename ?Ls))"
    using dLs by (rule distinct_take)
  then have "distinct (map ename (take n ?Ls))"
    by (simp only: take_map)
  moreover have "valid_name (ename L)" if "L \<in> set (take n ?Ls)" for L
    using that by (intro vLs) (rule in_set_takeD)
  ultimately have "distinct (map fst (concat (map (folder_writes rs fs0) (take n ?Ls))))"
    by (rule distinct_all_paths)
  then have d: "distinct (map fst (written (trace w)))"
    by (simp only: wr)
  have "map fst (written (trace w)) =
      concat (map (\<lambda>L. map fst (folder_writes rs fs0 L)) (take n ?Ls))"
    by (simp add: wr map_concat comp_def)
  then have "map fst (written (trace w)) =
       concat (map (\<lambda>L. map (\<lambda>k. os_path_join (os_path_join OUTPUT_FOLDER (ename L))
                     (''img_'' @
                      fmt_04d (glob_count (os_path_join OUTPUT_FOLDER (ename L)) ''.jpg'' fs0 + k) @
                      ''.jpg''))
                    [1..<Suc (length (folder_images rs L))])
          (take n ?Ls))"
    by (simp only: paths_folder_writes)
  with n d show ?thesis by blast
qed

theorem sequential_file_naming_witness:
  "extract_frames demo_resize demo_videos demo_fs = (Completed, 2, 1, demo_result) \<and>
   distinct (entry_names demo_videos) \<and>
   list_all valid_name (entry_names demo_videos) \<and>
   glob_count ''trainingdata/B'' ''.jpg'' demo_fs = 1 \<and>
   map fst (written (trace demo_result)) =
     [''trainingdata/B/img_0002.jpg'', ''trainingdata/B/img_0003.jpg''] \<and>
   distinct (map fst (written (trace demo_result)))"
proof -
  have "distinct (map fst (written (trace demo_result)))"
    using sequential_file_naming [OF demo_run demo_distinct demo_valid] by blast
  moreover have "glob_count ''trainingdata/B'' ''.jpg'' demo_fs = 1"
    by code_simp
  moreover have "map fst (written (trace demo_result)) =
     [''trainingdata/B/img_0002.jpg'', ''trainingdata/B/img_0003.jpg'']"
    by (simp add: demo_result_def)
  ultimately show ?thesis
    using demo_run demo_distinct demo_valid by blast
qed

subsection \<open>Labels and sizes of the images written\<close>

lemma video_files_listed: "v \<in> set (video_files_of L) \<Longrightarrow> v \<in> set (listing L)"
  by (auto simp: video_files_of_def)

lemma sampled_member:
  assumes "y \<in> set (sampled frames)"
  shows "\<exists>i. i < length frames \<and> i mod FRAME_INTERVAL = 0 \<and> y = frames ! i"
  using assms by (auto simp: sampled_def)

lemma video_image_source:
  assumes "x \<in> set (video_images rs v)"
  shows "\<exists>frames i. decoded v = Some frames \<and> i < length frames \<and>
     i mod FRAME_INTERVAL = 0 \<and> x = rs (frames ! i) (IMAGE_SIZE, IMAGE_SIZE)"
proof (cases "decoded v")
  case None
  with assms show ?thesis by (simp add: video_images_def)
next
  case (Some fs)
  have "video_images rs v = map (\<lambda>y. rs y (IMAGE_SIZE, IMAGE_SIZE)) (sampled fs)"
    by (simp add: video_images_def Some)
  with assms have "x \<in> (\<lambda>y. rs y (IMAGE_SIZE, IMAGE_SIZE)) ` set (sampled fs)"
    by simp
  then obtain y where x: "x = rs y (IMAGE_SIZE, IMAGE_SIZE)" and y: "y \<in> set (sampled fs)"
    by (rule imageE)
  from sampled_member [OF y] obtain i where i: "i < length fs" "i mod FRAME_INTERVAL = 0"
    and yi: "y = fs ! i"
    by (elim exE conjE)
  have "x = rs (fs ! i) (IMAGE_SIZE, IMAGE_SIZE)"
    unfolding x yi by (rule refl)
  with Some i have "decoded v = Some fs \<and> i < length fs \<and>
     i mod FRAME_INTERVAL = 0 \<and> x = rs (fs ! i) (IMAGE_SIZE, IMAGE_SIZE)"
    by (intro conjI)
  then show ?thesis
    by (intro exI)
qed

lemma image_source:
  assumes "x \<in> set (folder_images rs L)"
  shows "\<exists>v frames i. v \<in> set (listing L) \<and> decoded v = Some frames \<and> i < length frames \<and>
     i mod FRAME_INTERVAL = 0 \<and> x = rs (frames ! i) (IMAGE_SIZE, IMAGE_SIZE)"
proof -
  have "x \<in> (\<Union>v \<in> set (video_files_of L). set (video_images rs v))"
    using assms by (simp add: folder_images_def)
  then obtain v where v: "v \<in> set (video_files_of L)" and xv: "x \<in> set (video_images rs v)"
    by (rule UN_E)
  have vl: "v \<in> set (listing L)"
    using v by (rule video_files_listed)
  from video_image_source [OF xv] obtain fs i where src: "decoded v = Some fs" "i < length fs"
    "i mod FRAME_INTERVAL = 0" "x = rs (fs ! i) (IMAGE_SIZE, IMAGE_SIZE)"
    by (elim exE conjE)
  from vl src have "v \<in> set (listing L) \<and> decoded v = Some fs \<and> i < length fs \<and>
     i mod FRAME_INTERVAL = 0 \<and> x = rs (fs ! i) (IMAGE_SIZE, IMAGE_SIZE)"
    by (intro conjI)
  then show ?thesis
    by (intro exI)
qed

lemma letter_folder_names:
  assumes "L \<in> set (letter_folders_of videos)"
  shows "ename L \<in> set (entry_names videos)"
  using assms by (cases videos) (auto simp: letter_folders_of_def entry_names_def)

lemma written_origin:
  assumes run: "extract_frames rs videos fs0 = (st, tf, tv, w)"
    and mem: "(p, img) \<in> set (written (trace w))"
  shows "\<exists>L k. L \<in> set (letter_folders_of videos) \<and>
     p = img_path (os_path_join OUTPUT_FOLDER (ename L)) k \<and> img \<in> set (folder_images rs L)"
proof -
  from extract_frames_origin [OF run] obtain n where
    "\<forall>(p, x) \<in> set (written (trace w)). \<exists>L \<in> set (letter_folders_of videos).
        (\<exists>k. p = img_path (os_path_join OUTPUT_FOLDER (ename L)) k) \<and> x \<in> set (folder_images rs L)"
    by (elim exE conjE)
  from this [THEN bspec, OF mem] have "\<exists>L \<in> set (letter_folders_of videos).
      (\<exists>k. p = img_path (os_path_join OUTPUT_FOLDER (ename L)) k) \<and> img \<in> set (folder_images rs L)"
    by (simp only: prod.case)
  then obtain L k where "L \<in> set (letter_folders_of videos)"
    "p = img_path (os_path_join OUTPUT_FOLDER (ename L)) k" "img \<in> set (folder_images rs L)"
    by (elim bexE exE conjE)
  then have "L \<in> set (letter_folders_of videos) \<and>
     p = img_path (os_path_join OUTPUT_FOLDER (ename L)) k \<and> img \<in> set (folder_images rs L)"
    by (intro conjI)
  then show ?thesis
    by (intro exI)
qed

lemma demo_sized_run:
  "extract_frames demo_scale demo_sized_videos \<lparr>dirs = [], files = []\<rparr> =
     (Completed, 1, 1, demo_sized_result)"
  by code_simp

text \<open>
  Claim C3. Let the entries of \<open>Videos\<close> have names without separators. Every image
  a run writes is a resized frame of a video that lies in a letter folder \<open>L\<close> of
  \<open>Videos\<close>, and it is written into the directory \<open>OUTPUT_FOLDER/S\<close> where
  \<open>S\<close> is the name of \<open>L\<close>: the label of the image, the name of the directory
  that holds it, is the name of the folder of its video.
\<close>

theorem labeled_dataset:
  assumes run: "extract_frames rs videos fs0 = (st, tf, tv, w)"
    and valid: "list_all valid_name (entry_names videos)"
    and mem: "(p, img) \<in> set (written (trace w))"
  shows "\<exists>L v frames i. L \<in> set (letter_folders_of videos) \<and> v \<in> set (listing L) \<and>
       decoded v = Some frames \<and> i < length frames \<and>
       img = rs (frames ! i) (IMAGE_SIZE, IMAGE_SIZE) \<and>
       dirname p = OUTPUT_FOLDER @ ''/'' @ ename L \<and>
       basename (dirname p) = ename L"
proof -
  from written_origin [OF run mem] obtain L k where L: "L \<in> set (letter_folders_of videos)"
    and p: "p = img_path (os_path_join OUTPUT_FOLDER (ename L)) k"
    and x: "img \<in> set (folder_images rs L)"
    by (elim exE conjE)
  have "ename L \<in> set (entry_names videos)"
    using L by (rule letter_folder_names)
  with valid have vn: "valid_name (ename L)"
    by (simp add: list_all_iff)
  from image_source [OF x] obtain v fs i where src: "v \<in> set (listing L)" "decoded v = Some fs"
    "i < length fs" "img = rs (fs ! i) (IMAGE_SIZE, IMAGE_SIZE)"
    by (elim exE conjE)
  have d: "dirname p = OUTPUT_FOLDER @ ''/'' @ ename L"
    unfolding p using vn by (rule dirname_img_path)
  have b: "basename (dirname p) = ename L"
    unfolding p using vn by (rule label_img_path)
  from L src d b have "L \<in> set (letter_folders_of videos) \<and> v \<in> set (listing L) \<and>
       decoded v = Some fs \<and> i < length fs \<and>
       img = rs (fs ! i) (IMAGE_SIZE, IMAGE_SIZE) \<and>
       dirname p = OUTPUT_FOLDER @ ''/'' @ ename L \<and>
       basename (dirname p) = ename L"
    by (intro conjI)
  then show ?thesis
    by (intro exI)
qed

theorem labeled_dataset_witness:
  "extract_frames demo_resize demo_videos demo_fs = (Completed, 2, 1, demo_result) \<and>
   list_all valid_name (entry_names demo_videos) \<and>
   (''trainingdata/B/img_0003.jpg'', 1005) \<in> set (written (trace demo_result)) \<and>
   (\<exists>L v frames i. L \<in> set (letter_folders_of demo_videos) \<and> v \<in> set (listing L) \<and>
      decoded v = Some frames \<and> i < length frames \<and>
      1005 = demo_resize (frames ! i) (IMAGE_SIZE, IMAGE_SIZE) \<and>
      dirname ''trainingdata/B/img_0003.jpg'' = OUTPUT_FOLDER @ ''/'' @ ename L \<and>
      basename (dirname ''trainingdata/B/img_0003.jpg'') = ename L) \<and>
   basename (dirname ''trainingdata/B/img_0003.jpg'') = ''B''"
proof -
  have mem: "(''trainingdata/B/img_0003.jpg'', 1005) \<in> set (written (trace demo_result))"
    by (simp add: demo_result_def)
  note c = labeled_dataset [OF demo_run demo_valid mem]
  have b: "basename (dirname ''trainingdata/B/img_0003.jpg'') = ''B''"
    by code_simp
  from demo_run demo_valid mem c b show ?thesis
    by (intro conjI)
qed

text \<open>
  Claim C4. Every image a run writes is the result of \<open>cv2.resize\<close> on a frame with
  the size \<open>(IMAGE_SIZE, IMAGE_SIZE)\<close>; so, when resizing gives an image of the size it
  is asked for, every image written is 224 by 224, whatever the size of the frame.
\<close>

theorem resizing:
  assumes run: "extract_frames rs videos fs0 = (st, tf, tv, w)"
    and contract: "\<forall>f d. size_of (rs f d) = d"
    and mem: "(p, img) \<in> set (written (trace w))"
  shows "(\<exists>f. img = rs f (IMAGE_SIZE, IMAGE_SIZE)) \<and> size_of img = (224, 224)"
proof -
  from written_origin [OF run mem] obtain L k where x: "img \<in> set (folder_images rs L)"
    by (elim exE conjE)
  from image_source [OF x] obtain v fs i where f: "img = rs (fs ! i) (IMAGE_SIZE, IMAGE_SIZE)"
    by (elim exE conjE)
  have "size_of (rs (fs ! i) (IMAGE_SIZE, IMAGE_SIZE)) = (IMAGE_SIZE, IMAGE_SIZE)"
    using contract by (elim allE)
  then have s: "size_of img = (224, 224)"
    unfolding f by (simp only: IMAGE_SIZE_def)
  from f have "\<exists>f. img = rs f (IMAGE_SIZE, IMAGE_SIZE)"
    by (rule exI)
  with s show ?thesis
    by (intro conjI)
qed

theorem resizing_witness:
  "extract_frames demo_scale demo_sized_videos \<lparr>dirs = [], files = []\<rparr> =
     (Completed, 1, 1, demo_sized_result) \<and>
   (\<forall>f d. demo_size_of (demo_scale f d) = d) \<and>
   (''trainingdata/A/img_0001.jpg'', (224, 224)) \<in> set (written (trace demo_sized_result)) \<and>
   (\<exists>f. (224, 224) = demo_scale f (IMAGE_SIZE, IMAGE_SIZE)) \<and>
   demo_size_of (224, 224) = (224, 224)"
proof -
  have c: "\<forall>f d. demo_size_of (demo_scale f d) = d"
    by (simp add: demo_size_of_def demo_scale_def)
  have mem: "(''trainingdata/A/img_0001.jpg'', (224, 224)) \<in> set (written (trace demo_sized_result))"
    by (simp add: demo_sized_result_def)
  note r = resizing [OF demo_sized_run c mem]
  from demo_sized_run c mem r show ?thesis
    by (intro conjI) (elim conjE, assumption)+
qed

(* MORE *)

end
